theory Spec2Isabelle
  imports Complex_Main
begin

section \<open>Python primitives used by \<^verbatim>\<open>pdf_to_podcast.py\<close>\<close>

text \<open>
  Python strings are modelled as \<open>string\<close>, one \<open>char\<close> per code point below 256.
  \<open>is_space\<close> is \<^verbatim>\<open>str.isspace\<close> on that range: the characters that
  \<^verbatim>\<open>str.split()\<close> and \<^verbatim>\<open>str.strip()\<close> treat as whitespace.
\<close>

definition is_space :: "char \<Rightarrow> bool" where
  "is_space c = (of_char c \<in> {9, 10, 11, 12, 13, 28, 29, 30, 31, 32, 133, 160 :: nat})"

text \<open>
  \<^verbatim>\<open>s.split()\<close>: runs of whitespace separate the words, and no empty word is
  produced. The second argument is the word being read.
\<close>

fun split_from :: "string \<Rightarrow> string \<Rightarrow> string list" where
  "split_from [] cur = (if cur = [] then [] else [cur])"
| "split_from (c # cs) cur =
     (if is_space c then (if cur = [] then split_from cs [] else cur # split_from cs [])
      else split_from cs (cur @ [c]))"

definition str_split :: "string \<Rightarrow> string list" where
  "str_split s = split_from s []"

text \<open>\<^verbatim>\<open>s.strip()\<close>: leading and trailing whitespace removed.\<close>

definition str_strip :: "string \<Rightarrow> string" where
  "str_strip s = rev (dropWhile is_space (rev (dropWhile is_space s)))"

text \<open>\<^verbatim>\<open>sep.join(xs)\<close>.\<close>

fun str_join :: "string \<Rightarrow> string list \<Rightarrow> string" where
  "str_join sep [] = []"
| "str_join sep [x] = x"
| "str_join sep (x # y # ys) = x @ sep @ str_join sep (y # ys)"

text \<open>
  \<^verbatim>\<open>xs[i:j]\<close>: a negative bound counts from the end, and both bounds are clamped
  to the list.
\<close>

definition slice_bound :: "nat \<Rightarrow> int \<Rightarrow> int" where
  "slice_bound n k = (if k < 0 then max 0 (k + int n) else min k (int n))"

definition py_slice :: "'a list \<Rightarrow> int \<Rightarrow> int \<Rightarrow> 'a list" where
  "py_slice xs i j =
     take (nat (slice_bound (length xs) j - slice_bound (length xs) i))
          (drop (nat (slice_bound (length xs) i)) xs)"

text \<open>\<^verbatim>\<open>str(n)\<close> and the format specification \<^verbatim>\<open>{n:02d}\<close> on integers.\<close>

definition digit_char :: "nat \<Rightarrow> char" where
  "digit_char d = ''0123456789'' ! (d mod 10)"

fun str_nat :: "nat \<Rightarrow> string" where
  "str_nat n = (if n < 10 then [digit_char n] else str_nat (n div 10) @ [digit_char (n mod 10)])"

definition str_int :: "int \<Rightarrow> string" where
  "str_int i = (if i < 0 then CHR ''-'' # str_nat (nat (- i)) else str_nat (nat i))"

definition format_02d :: "int \<Rightarrow> string" where
  "format_02d i =
     (if i < 0 then CHR ''-'' # str_nat (nat (- i))
      else replicate (2 - length (str_nat (nat i))) CHR ''0'' @ str_nat (nat i))"

text \<open>Reading a decimal numeral back, used to state what a formatted index denotes.\<close>

definition digit_val :: "char \<Rightarrow> nat" where
  "digit_val c = of_char c - 48"

definition is_digit :: "char \<Rightarrow> bool" where
  "is_digit c = (48 \<le> (of_char c :: nat) \<and> (of_char c :: nat) \<le> 57)"

definition dec_val :: "string \<Rightarrow> nat" where
  "dec_val s = foldl (\<lambda>acc c. 10 * acc + digit_val c) 0 s"


section \<open>The outside world\<close>

text \<open>
  The libraries the program calls are parameters of the model. An exception is represented
  by its message, \<^verbatim>\<open>str(e)\<close>; \<open>None\<close> is a call that returns normally.
  \<^item> \<open>pdf_reader\<close>: \<^verbatim>\<open>PdfReader(path).pages\<close> with \<^verbatim>\<open>extract_text()\<close> applied to
    each page, or the exception raised on the way;
  \<^item> \<open>mkdir\<close>: \<^verbatim>\<open>Path.mkdir(exist_ok=True)\<close>;
  \<^item> \<open>edge_save\<close>: \<^verbatim>\<open>edge_tts.Communicate(text, voice=voice).save(path)\<close>;
  \<^item> \<open>gtts_save\<close>: \<^verbatim>\<open>gTTS(text=text, lang=lang).save(path)\<close>.
\<close>

record env =
  pdf_reader :: "string \<Rightarrow> string + string list"
  mkdir :: "string \<Rightarrow> string option"
  edge_save :: "string \<Rightarrow> string \<Rightarrow> string \<Rightarrow> string option"
  gtts_save :: "string \<Rightarrow> string \<Rightarrow> string \<Rightarrow> string option"

text \<open>
  A \<^verbatim>\<open>pathlib.Path\<close> of a file, as pathlib decomposes it: the directory, the stem and
  the suffix of the final component.
\<close>

record path =
  parent :: string
  stem :: string
  suffix :: string

definition path_str :: "path \<Rightarrow> string" where
  "path_str p = parent p @ ''/'' @ stem p @ suffix p"

text \<open>
  What a run does, in order: lines inserted into the log widget, message boxes, the
  output directory created, and calls of a synthesis backend with their outcome
  (\<open>None\<close>: the audio file was written).
\<close>

datatype event =
    Log string
  | ShowError string string
  | ShowInfo string string
  | Mkdir string
  | Tts string string string "string option"

fun is_output :: "event \<Rightarrow> bool" where
  "is_output (Mkdir d) = True"
| "is_output (Tts engine file text r) = True"
| "is_output e = False"

fun written :: "event list \<Rightarrow> string list" where
  "written [] = []"
| "written (Tts engine file text None # es) = file # written es"
| "written (e # es) = written es"

fun attempted :: "event list \<Rightarrow> string list" where
  "attempted [] = []"
| "attempted (Tts engine file text r # es) = file # attempted es"
| "attempted (e # es) = attempted es"


section \<open>Core functions\<close>

definition extract_text :: "env \<Rightarrow> path \<Rightarrow> string + string" where
  "extract_text w pdf_path =
     (case pdf_reader w (path_str pdf_path) of
        Inl e \<Rightarrow> Inl e
      | Inr pages \<Rightarrow> Inr (str_join [CHR 0x0A, CHR 0x0A] (filter (\<lambda>t. t \<noteq> []) pages)))"

definition tts_edge_tts :: "env \<Rightarrow> string \<Rightarrow> string \<Rightarrow> string \<Rightarrow> string option" where
  "tts_edge_tts w text out_path voice = edge_save w text voice out_path"

definition tts_gtts :: "env \<Rightarrow> string \<Rightarrow> string \<Rightarrow> string option" where
  "tts_gtts w text out_path = gtts_save w text ''en'' out_path"

text \<open>
  The loop of \<^verbatim>\<open>split_text\<close>. \<open>words_per_episode\<close> is any Python integer, and the loop
  need not end: \<open>None\<close> is a run of the loop that never returns.
\<close>

definition chunk_end :: "string list \<Rightarrow> int \<Rightarrow> int \<Rightarrow> int" where
  "chunk_end words words_per_episode start = min (int (length words)) (start + words_per_episode)"

definition episode_text :: "string list \<Rightarrow> int \<Rightarrow> int \<Rightarrow> string" where
  "episode_text words words_per_episode start =
     str_join '' '' (py_slice words start (chunk_end words words_per_episode start))"

partial_function (option) split_loop ::
  "string list \<Rightarrow> int \<Rightarrow> int \<Rightarrow> int \<Rightarrow> (int \<times> string) list \<Rightarrow> (int \<times> string) list option"
where
  "split_loop words words_per_episode start idx episodes =
     (if start < int (length words)
      then split_loop words words_per_episode (chunk_end words words_per_episode start) (idx + 1)
             (episodes @ [(idx, episode_text words words_per_episode start)])
      else Some episodes)"

declare split_loop.simps [code]

definition split_text :: "string \<Rightarrow> int \<Rightarrow> (int \<times> string) list option" where
  "split_text full_text words_per_episode = split_loop (str_split full_text) words_per_episode 0 1 []"


section \<open>The conversion\<close>

definition episode_name :: "int \<Rightarrow> string" where
  "episode_name idx = ''episode_'' @ format_02d idx @ ''.mp3''"

definition out_dir_of :: "path \<Rightarrow> string" where
  "out_dir_of pdf_path = parent pdf_path @ ''/'' @ stem pdf_path @ ''_podcast''"

definition out_file_of :: "string \<Rightarrow> int \<Rightarrow> string" where
  "out_file_of out_dir idx = out_dir @ ''/'' @ episode_name idx"

definition words_per_episode_of :: "int \<Rightarrow> int" where
  "words_per_episode_of minutes = minutes * 180"

text \<open>
  The body of the \<^verbatim>\<open>for idx, ep_text in episodes\<close> loop, for one episode: the events
  it causes and the exception that leaves it, if any.
\<close>

definition synthesize :: "env \<Rightarrow> string \<Rightarrow> string \<Rightarrow> int \<Rightarrow> string \<Rightarrow> event list \<times> string option" where
  "synthesize w engine out_dir idx ep_text =
     (let out_file = out_file_of out_dir idx;
          generating = Log (''[tts] Generating '' @ episode_name idx @ [CHR 0x0A])
      in if engine = ''edge-tts''
         then (let r = tts_edge_tts w ep_text out_file ''en-US-JennyNeural''
               in ([generating, Tts engine out_file ep_text r], r))
         else if engine = ''gtts''
         then (let r = tts_gtts w ep_text out_file
               in ([generating, Tts engine out_file ep_text r], r))
         else ([generating, Log (''[error] Unknown engine '' @ engine @ [CHR 0x0A])], None))"

text \<open>The loop itself: an exception ends it.\<close>

fun run_episodes :: "env \<Rightarrow> string \<Rightarrow> string \<Rightarrow> (int \<times> string) list \<Rightarrow> event list \<times> string option" where
  "run_episodes w engine out_dir [] = ([], None)"
| "run_episodes w engine out_dir ((idx, ep_text) # rest) =
     (case synthesize w engine out_dir idx ep_text of
        (evs, Some e) \<Rightarrow> (evs, Some e)
      | (evs, None) \<Rightarrow>
          (case run_episodes w engine out_dir rest of (evs', r) \<Rightarrow> (evs @ evs', r)))"

text \<open>
  \<^verbatim>\<open>convert_pdf\<close>. The whole body is inside \<^verbatim>\<open>try ... except Exception as e\<close>, whose
  handler shows \<^verbatim>\<open>str(e)\<close> in an error box. The result is the sequence of events of
  the run, or \<open>None\<close> when the run never returns.
\<close>

definition convert_pdf :: "env \<Rightarrow> path \<Rightarrow> string \<Rightarrow> int \<Rightarrow> event list option" where
  "convert_pdf w pdf_path engine minutes =
     (let reading = Log (''[info] Reading '' @ path_str pdf_path @ [CHR 0x0A])
      in case extract_text w pdf_path of
           Inl e \<Rightarrow> Some [reading, ShowError ''Error'' e]
         | Inr text \<Rightarrow>
             if str_strip text = []
             then Some [reading, ShowError ''Error'' ''No text could be extracted from PDF.'']
             else (case split_text text (words_per_episode_of minutes) of
                     None \<Rightarrow> None
                   | Some episodes \<Rightarrow>
                       (let out_dir = out_dir_of pdf_path
                        in case mkdir w out_dir of
                             Some e \<Rightarrow> Some [reading, ShowError ''Error'' e]
                           | None \<Rightarrow>
                               (case run_episodes w engine out_dir episodes of
                                  (evs, Some e) \<Rightarrow>
                                    Some ([reading, Mkdir out_dir] @ evs @ [ShowError ''Error'' e])
                                | (evs, None) \<Rightarrow>
                                    Some ([reading, Mkdir out_dir] @ evs @
                                      [ShowInfo ''Done''
                                         (''Created '' @ str_int (int (length episodes)) @
                                          '' MP3s in '' @ out_dir)])))))"


section \<open>Auxiliary functions for stating the results\<close>

text \<open>
  The word list cut into consecutive groups of \<open>n\<close> words, the last group holding the
  remainder; and a list numbered from a first index.
\<close>

function chunks_of :: "nat \<Rightarrow> 'a list \<Rightarrow> 'a list list" where
  "chunks_of n xs = (if n = 0 \<or> xs = [] then [] else take n xs # chunks_of n (drop n xs))"
  by pat_completeness auto
termination
  by (relation "measure (\<lambda>(n, xs). length xs)") auto

fun number_from :: "int \<Rightarrow> 'a list \<Rightarrow> (int \<times> 'a) list" where
  "number_from i [] = []"
| "number_from i (x # xs) = (i, x) # number_from (i + 1) xs"

definition blank :: "string \<Rightarrow> bool" where
  "blank s = list_all is_space s"


section \<open>Example inputs\<close>

text \<open>
  A document \<^verbatim>\<open>docs/book.pdf\<close> of one page; a world in which every library call
  succeeds; a world in which writing the second episode fails; and a text of \<open>n\<close> words.
\<close>

definition example_path :: path where
  "example_path = \<lparr>parent = ''docs'', stem = ''book'', suffix = ''.pdf''\<rparr>"

definition example_env :: "string \<Rightarrow> env" where
  "example_env page =
     \<lparr>pdf_reader = (\<lambda>p. Inr [page]),
      mkdir = (\<lambda>d. None),
      edge_save = (\<lambda>text voice file. None),
      gtts_save = (\<lambda>text lang file. None)\<rparr>"

definition failing_env :: "string \<Rightarrow> env" where
  "failing_env page =
     \<lparr>pdf_reader = (\<lambda>p. Inr [page]),
      mkdir = (\<lambda>d. None),
      edge_save = (\<lambda>text voice file. None),
      gtts_save = (\<lambda>text lang file.
        if file = ''docs/book_podcast/episode_02.mp3'' then Some ''connection reset'' else None)\<rparr>"

definition words_text :: "nat \<Rightarrow> string" where
  "words_text n = str_join '' '' (replicate n ''w'')"


section \<open>Facts about the primitives\<close>

lemma split_from_words:
  "w \<in> set (split_from s cur) \<Longrightarrow> \<forall>c \<in> set cur. \<not> is_space c \<Longrightarrow>
     w \<noteq> [] \<and> (\<forall>c \<in> set w. \<not> is_space c)"
proof (induction s arbitrary: cur)
  case Nil
  then show ?case by (cases "cur = []") auto
next
  case (Cons c cs)
  show ?case
  proof (cases "is_space c")
    case True
    show ?thesis
    proof (cases "cur = []")
      case True
      with \<open>is_space c\<close> Cons.prems have "w \<in> set (split_from cs [])" by simp
      then show ?thesis using Cons.IH [of "[]"] by simp
    next
      case False
      with \<open>is_space c\<close> Cons.prems have "w = cur \<or> w \<in> set (split_from cs [])" by simp
      then show ?thesis using Cons.IH [of "[]"] Cons.prems(2) False by auto
    qed
  next
    case False
    with Cons.prems have "w \<in> set (split_from cs (cur @ [c]))" by simp
    moreover have "\<forall>d \<in> set (cur @ [c]). \<not> is_space d" using False Cons.prems(2) by simp
    ultimately show ?thesis using Cons.IH by blast
  qed
qed

lemma str_split_words:
  "w \<in> set (str_split s) \<Longrightarrow> w \<noteq> [] \<and> (\<forall>c \<in> set w. \<not> is_space c)"
  using split_from_words [of w s "[]"] by (simp add: str_split_def)

lemma split_from_Nil_iff: "split_from s cur = [] \<longleftrightarrow> cur = [] \<and> blank s"
  by (induction s arbitrary: cur) (simp_all add: blank_def)

lemma str_split_Nil_iff: "str_split s = [] \<longleftrightarrow> blank s"
  by (simp add: str_split_def split_from_Nil_iff)

lemma blank_iff: "blank s \<longleftrightarrow> (\<forall>c \<in> set s. is_space c)"
  by (simp add: blank_def list_all_iff)

lemma str_strip_Nil_iff: "str_strip s = [] \<longleftrightarrow> blank s"
proof
  assume "str_strip s = []"
  then have all: "\<forall>c \<in> set (dropWhile is_space s). is_space c"
    by (simp add: str_strip_def dropWhile_eq_Nil_conv)
  have "dropWhile is_space s = []"
  proof (rule ccontr)
    assume ne: "dropWhile is_space s \<noteq> []"
    then have "\<not> is_space (hd (dropWhile is_space s))" by (rule hd_dropWhile)
    moreover have "hd (dropWhile is_space s) \<in> set (dropWhile is_space s)"
      using ne by (rule hd_in_set)
    ultimately show False using all by blast
  qed
  then show "blank s" by (simp add: blank_iff dropWhile_eq_Nil_conv)
next
  assume "blank s"
  then show "str_strip s = []"
    by (auto simp: str_strip_def blank_iff dest: set_dropWhileD)
qed

lemma split_from_word:
  "\<forall>c \<in> set w. \<not> is_space c \<Longrightarrow> split_from (w @ s) cur = split_from s (cur @ w)"
  by (induction w arbitrary: cur) simp_all

lemma split_from_join:
  "\<forall>w \<in> set (x # ws). w \<noteq> [] \<and> (\<forall>c \<in> set w. \<not> is_space c) \<Longrightarrow>
     split_from (str_join '' '' (x # ws)) [] = x # ws"
proof (induction ws arbitrary: x)
  case Nil
  then have "split_from (x @ []) [] = split_from [] ([] @ x)" by (intro split_from_word) simp
  with Nil show ?case by simp
next
  case (Cons y ys)
  have sp: "is_space CHR '' ''" by (simp add: is_space_def)
  have "split_from (x @ ('' '' @ str_join '' '' (y # ys))) [] =
          split_from ('' '' @ str_join '' '' (y # ys)) ([] @ x)"
    using Cons.prems by (intro split_from_word) simp
  also have "\<dots> = x # split_from (str_join '' '' (y # ys)) []"
    using Cons.prems sp by simp
  also have "\<dots> = x # y # ys" using Cons.IH [of y] Cons.prems by simp
  finally show ?case by simp
qed

lemma str_split_join:
  assumes "\<forall>w \<in> set ws. w \<noteq> [] \<and> (\<forall>c \<in> set w. \<not> is_space c)"
  shows "str_split (str_join '' '' ws) = ws"
proof (cases ws)
  case Nil
  then show ?thesis by (simp add: str_split_def)
next
  case (Cons x xs)
  then show ?thesis using split_from_join [of x xs] assms by (simp add: str_split_def)
qed

section \<open>Facts about the auxiliary functions\<close>

declare chunks_of.simps [simp del]

lemma chunks_of_Nil [simp]: "chunks_of n [] = []"
  by (subst chunks_of.simps) simp

lemma chunks_of_0 [simp]: "chunks_of 0 xs = []"
  by (subst chunks_of.simps) simp

lemma chunks_of_step: "0 < n \<Longrightarrow> xs \<noteq> [] \<Longrightarrow> chunks_of n xs = take n xs # chunks_of n (drop n xs)"
  by (subst chunks_of.simps) simp

lemma py_slice_inner:
  assumes "0 \<le> i" "i \<le> j" "j \<le> int (length xs)"
  shows "py_slice xs i j = take (nat (j - i)) (drop (nat i) xs)"
proof -
  have "slice_bound (length xs) i = i" using assms by (simp add: slice_bound_def)
  moreover have "slice_bound (length xs) j = j" using assms by (simp add: slice_bound_def)
  ultimately show ?thesis by (simp add: py_slice_def)
qed

lemma concat_chunks_of: "0 < n \<Longrightarrow> concat (chunks_of n xs) = xs"
proof (induction n xs rule: chunks_of.induct)
  case (1 n xs)
  show ?case
  proof (cases "xs = []")
    case True
    then show ?thesis by simp
  next
    case False
    with 1 show ?thesis by (simp add: chunks_of_step)
  qed
qed

lemma chunks_of_member:
  "0 < n \<Longrightarrow> c \<in> set (chunks_of n xs) \<Longrightarrow> c \<noteq> [] \<and> length c \<le> n"
proof (induction n xs rule: chunks_of.induct)
  case (1 n xs)
  show ?case
  proof (cases "xs = []")
    case True
    with "1.prems" show ?thesis by simp
  next
    case False
    have step: "chunks_of n xs = take n xs # chunks_of n (drop n xs)"
      using "1.prems"(1) False by (rule chunks_of_step)
    from "1.prems"(2) have "c = take n xs \<or> c \<in> set (chunks_of n (drop n xs))"
      unfolding step by simp
    then show ?thesis
    proof
      assume "c = take n xs"
      then show ?thesis using False "1.prems"(1) by simp
    next
      assume "c \<in> set (chunks_of n (drop n xs))"
      moreover have "\<not> (n = 0 \<or> xs = [])" using False "1.prems"(1) by simp
      ultimately show ?thesis using "1.IH" "1.prems"(1) by blast
    qed
  qed
qed

lemma ceil_div_step:
  assumes "0 < n" "0 < (m::nat)"
  shows "(m + n - 1) div n = Suc ((m - n + n - 1) div n)"
proof -
  obtain k where k: "m = Suc k" using assms(2) by (cases m) auto
  have a: "m + n - 1 = k + n" using k by simp
  have b: "(k + n) div n = Suc (k div n)" using assms(1) by simp
  show ?thesis
  proof (cases "n \<le> m")
    case True
    have c: "m - n + n - 1 = k" using True k by simp
    show ?thesis by (simp only: a b c)
  next
    case False
    have c: "m - n + n - 1 = n - 1" using False by simp
    have d: "(n - 1) div n = 0" using assms(1) by simp
    have e: "k div n = 0" using False k by simp
    show ?thesis by (simp only: a b c d e)
  qed
qed

lemma length_chunks_of: "0 < n \<Longrightarrow> length (chunks_of n xs) = (length xs + n - 1) div n"
proof (induction n xs rule: chunks_of.induct)
  case (1 n xs)
  show ?case
  proof (cases "xs = []")
    case True
    with "1.prems" show ?thesis by simp
  next
    case False
    have step: "chunks_of n xs = take n xs # chunks_of n (drop n xs)"
      using "1.prems" False by (rule chunks_of_step)
    have "\<not> (n = 0 \<or> xs = [])" using False "1.prems" by simp
    then have IH: "length (chunks_of n (drop n xs)) = (length (drop n xs) + n - 1) div n"
      using "1.IH" "1.prems" by blast
    have "length (chunks_of n xs) = Suc ((length xs - n + n - 1) div n)"
      unfolding step using IH by simp
    also have "\<dots> = (length xs + n - 1) div n"
      using ceil_div_step [of n "length xs"] "1.prems" False by simp
    finally show ?thesis .
  qed
qed

lemma chunks_of_butlast:
  "0 < n \<Longrightarrow> c \<in> set (butlast (chunks_of n xs)) \<Longrightarrow> length c = n"
proof (induction n xs rule: chunks_of.induct)
  case (1 n xs)
  show ?case
  proof (cases "xs = []")
    case True
    with 1 show ?thesis by simp
  next
    case False
    show ?thesis
    proof (cases "chunks_of n (drop n xs) = []")
      case True
      with 1 False show ?thesis by (simp add: chunks_of_step)
    next
      case ne: False
      then have "drop n xs \<noteq> []" by auto
      then have "n < length xs" by simp
      then have "length (take n xs) = n" by simp
      with 1 False ne show ?thesis by (auto simp: chunks_of_step)
    qed
  qed
qed

lemma chunks_of_single:
  assumes "xs \<noteq> []" "length xs \<le> n"
  shows "chunks_of n xs = [xs]"
proof -
  have "0 < n" using assms by (cases xs) auto
  then have "chunks_of n xs = take n xs # chunks_of n (drop n xs)"
    using assms(1) by (rule chunks_of_step)
  with assms show ?thesis by simp
qed

lemma chunks_of_eq_Nil:
  assumes "0 < n"
  shows "chunks_of n xs = [] \<longleftrightarrow> xs = []"
proof (cases "xs = []")
  case True
  then show ?thesis by simp
next
  case False
  with assms have "chunks_of n xs = take n xs # chunks_of n (drop n xs)"
    by (rule chunks_of_step)
  with False show ?thesis by simp
qed

lemma map_fst_number_from: "map fst (number_from i xs) = [i..i + int (length xs) - 1]"
proof (induction xs arbitrary: i)
  case Nil
  then show ?case by simp
next
  case (Cons x xs)
  have "[i..i + int (length (x # xs)) - 1] = i # [i + 1..i + int (length (x # xs)) - 1]"
    by (rule upto_rec1) simp
  also have "i + int (length (x # xs)) - 1 = i + 1 + int (length xs) - 1" by simp
  finally show ?case using Cons [of "i + 1"] by simp
qed

lemma map_snd_number_from: "map snd (number_from i xs) = xs"
  by (induction xs arbitrary: i) simp_all

lemma length_number_from: "length (number_from i xs) = length xs"
  by (induction xs arbitrary: i) simp_all

section \<open>The loop of \<^verbatim>\<open>split_text\<close>\<close>

lemma split_loop_pos:
  "0 < wpe \<Longrightarrow> 0 \<le> start \<Longrightarrow> start \<le> int (length words) \<Longrightarrow>
     split_loop words wpe start idx eps =
       Some (eps @ number_from idx (map (str_join '' '') (chunks_of (nat wpe) (drop (nat start) words))))"
proof (induction "length words - nat start" arbitrary: start idx eps rule: less_induct)
  case less
  show ?case
  proof (cases "start < int (length words)")
    case False
    with less.prems have "drop (nat start) words = []" by simp
    with False show ?thesis by (subst split_loop.simps) simp
  next
    case True
    define e where "e = chunk_end words wpe start"
    have e_bounds: "start < e" "e \<le> int (length words)" "0 \<le> e"
      using True less.prems by (simp_all add: e_def chunk_end_def)
    have ne: "drop (nat start) words \<noteq> []" using True less.prems by simp
    have slice: "py_slice words start e = take (nat wpe) (drop (nat start) words)"
    proof -
      have "py_slice words start e = take (nat (e - start)) (drop (nat start) words)"
        using e_bounds less.prems by (intro py_slice_inner) simp_all
      also have "\<dots> = take (nat wpe) (drop (nat start) words)"
      proof (cases "start + wpe \<le> int (length words)")
        case True
        then show ?thesis by (simp add: e_def chunk_end_def)
      next
        case False
        then have "e = int (length words)" by (simp add: e_def chunk_end_def)
        with False less.prems show ?thesis by simp
      qed
      finally show ?thesis .
    qed
    have rest: "drop (nat wpe) (drop (nat start) words) = drop (nat e) words"
    proof (cases "start + wpe \<le> int (length words)")
      case True
      then have "e = start + wpe" by (simp add: e_def chunk_end_def)
      with less.prems show ?thesis by (simp add: nat_add_distrib add.commute)
    next
      case False
      then have "e = int (length words)" by (simp add: e_def chunk_end_def)
      with False less.prems show ?thesis by simp
    qed
    have "length words - nat e < length words - nat start"
      using e_bounds less.prems by linarith
    then have IH: "split_loop words wpe e (idx + 1) (eps @ [(idx, episode_text words wpe start)]) =
        Some ((eps @ [(idx, episode_text words wpe start)]) @
          number_from (idx + 1) (map (str_join '' '') (chunks_of (nat wpe) (drop (nat e) words))))"
      using less.hyps [of e] less.prems(1) e_bounds by simp
    have "split_loop words wpe start idx eps =
            split_loop words wpe e (idx + 1) (eps @ [(idx, episode_text words wpe start)])"
      using True by (subst split_loop.simps) (simp add: e_def)
    also note IH
    also have "(eps @ [(idx, episode_text words wpe start)]) @
          number_from (idx + 1) (map (str_join '' '') (chunks_of (nat wpe) (drop (nat e) words))) =
        eps @ number_from idx (map (str_join '' '') (chunks_of (nat wpe) (drop (nat start) words)))"
      using ne less.prems(1) slice rest
      by (simp add: chunks_of_step [of "nat wpe" "drop (nat start) words"] episode_text_def e_def)
    finally show ?thesis .
  qed
qed

lemma split_text_pos:
  "0 < wpe \<Longrightarrow>
     split_text t wpe = Some (number_from 1 (map (str_join '' '') (chunks_of (nat wpe) (str_split t))))"
  using split_loop_pos [of wpe 0 "str_split t" 1 "[]"] by (simp add: split_text_def)

lemma split_loop_diverges_aux:
  assumes "split_loop words wpe start idx eps = Some r"
  shows "\<not> (wpe \<le> 0 \<and> start < int (length words))"
proof (rule split_loop.raw_induct
    [where P = "\<lambda>words wpe start idx eps r. \<not> (wpe \<le> 0 \<and> start < int (length words))", OF _ assms])
  fix f :: "string list \<Rightarrow> int \<Rightarrow> int \<Rightarrow> int \<Rightarrow> (int \<times> string) list \<Rightarrow> (int \<times> string) list option"
  fix words wpe start idx eps r
  assume IH: "\<And>words wpe start idx eps r. f words wpe start idx eps = Some r \<Longrightarrow>
      \<not> (wpe \<le> 0 \<and> start < int (length words))"
  assume eq: "(if start < int (length words)
      then f words wpe (chunk_end words wpe start) (idx + 1)
             (eps @ [(idx, episode_text words wpe start)])
      else Some eps) = Some r"
  show "\<not> (wpe \<le> 0 \<and> start < int (length words))"
  proof
    assume a: "wpe \<le> 0 \<and> start < int (length words)"
    then have lt: "chunk_end words wpe start < int (length words)" by (simp add: chunk_end_def)
    from a eq have "f words wpe (chunk_end words wpe start) (idx + 1)
        (eps @ [(idx, episode_text words wpe start)]) = Some r" by simp
    then have "\<not> (wpe \<le> 0 \<and> chunk_end words wpe start < int (length words))"
      by (rule IH)
    with a lt show False by simp
  qed
qed

lemma split_loop_diverges:
  assumes "wpe \<le> 0" "start < int (length words)"
  shows "split_loop words wpe start idx eps = None"
proof (cases "split_loop words wpe start idx eps")
  case None
  then show ?thesis .
next
  case (Some r)
  then have "\<not> (wpe \<le> 0 \<and> start < int (length words))" by (rule split_loop_diverges_aux)
  with assms show ?thesis by simp
qed

lemma split_text_nonpos:
  assumes "wpe \<le> 0" "\<not> blank t"
  shows "split_text t wpe = None"
proof -
  have "str_split t \<noteq> []" using assms(2) by (simp add: str_split_Nil_iff)
  then have "0 < int (length (str_split t))" by simp
  with assms(1) have "split_loop (str_split t) wpe 0 1 [] = None" by (rule split_loop_diverges)
  then show ?thesis by (simp add: split_text_def)
qed

lemma split_text_blank:
  assumes "blank t"
  shows "split_text t wpe = Some []"
proof -
  have "str_split t = []" using assms by (simp add: str_split_Nil_iff)
  then show ?thesis unfolding split_text_def by (subst split_loop.simps) simp
qed

section \<open>Episode file names\<close>

declare str_nat.simps [simp del]

lemma digit_char_props:
  assumes "d < 10"
  shows "is_digit (digit_char d) \<and> digit_val (digit_char d) = d \<and> (digit_char d = CHR ''0'' \<longleftrightarrow> d = 0)"
proof -
  from assms have "d = 0 \<or> d = 1 \<or> d = 2 \<or> d = 3 \<or> d = 4 \<or> d = 5 \<or> d = 6 \<or> d = 7 \<or> d = 8 \<or> d = 9"
    by arith
  then show ?thesis
    by (elim disjE) (simp_all add: digit_char_def is_digit_def digit_val_def)
qed

lemma dec_val_snoc: "dec_val (ds @ [c]) = 10 * dec_val ds + digit_val c"
  by (simp add: dec_val_def)

lemma str_nat_small: "n < 10 \<Longrightarrow> str_nat n = [digit_char n]"
  by (subst str_nat.simps) simp

lemma str_nat_big: "10 \<le> n \<Longrightarrow> str_nat n = str_nat (n div 10) @ [digit_char (n mod 10)]"
  by (subst str_nat.simps) simp

lemma str_nat_props:
  "str_nat n \<noteq> [] \<and> list_all is_digit (str_nat n) \<and> dec_val (str_nat n) = n \<and>
   (0 < n \<longrightarrow> hd (str_nat n) \<noteq> CHR ''0'') \<and> (10 \<le> n \<longrightarrow> 2 \<le> length (str_nat n))"
proof (induction n rule: less_induct)
  case (less n)
  show ?case
  proof (cases "n < 10")
    case True
    then show ?thesis
      using digit_char_props [of n] by (simp add: str_nat_small dec_val_def)
  next
    case False
    then have big: "str_nat n = str_nat (n div 10) @ [digit_char (n mod 10)]"
      by (simp add: str_nat_big)
    have lt: "n div 10 < n" using False by simp
    have pos: "0 < n div 10" using False by simp
    have d: "n mod 10 < 10" by simp
    note IH = less.IH [OF lt]
    have ne: "str_nat (n div 10) \<noteq> []" using IH by simp
    have "list_all is_digit (str_nat n)"
      using IH digit_char_props [OF d] by (simp add: big)
    moreover have "dec_val (str_nat n) = n"
      using IH digit_char_props [OF d] by (simp add: big dec_val_snoc)
    moreover have "hd (str_nat n) \<noteq> CHR ''0''"
      using IH pos ne by (simp add: big)
    moreover have "2 \<le> length (str_nat n)"
    proof -
      have "1 \<le> length (str_nat (n div 10))" using ne by (cases "str_nat (n div 10)") simp_all
      then show ?thesis by (simp add: big)
    qed
    ultimately show ?thesis by (simp add: big)
  qed
qed

lemma format_02d_small: "0 \<le> n \<Longrightarrow> n < 10 \<Longrightarrow> format_02d n = [CHR ''0'', digit_char (nat n)]"
  by (simp add: format_02d_def str_nat_small)

lemma format_02d_big: "10 \<le> n \<Longrightarrow> format_02d n = str_nat (nat n)"
proof -
  assume a: "10 \<le> n"
  then have "10 \<le> nat n" by simp
  then have "2 \<le> length (str_nat (nat n))" using str_nat_props [of "nat n"] by simp
  with a show ?thesis by (simp add: format_02d_def)
qed

lemma episode_name_digits:
  assumes n: "1 \<le> n"
  shows "2 \<le> length (format_02d n) \<and> list_all is_digit (format_02d n) \<and>
         dec_val (format_02d n) = nat n \<and>
         (n < 10 \<longrightarrow> format_02d n = [CHR ''0'', digit_char (nat n)]) \<and>
         (10 \<le> n \<longrightarrow> hd (format_02d n) \<noteq> CHR ''0'')"
proof (cases "n < 10")
  case True
  have f: "format_02d n = [CHR ''0'', digit_char (nat n)]" using n True by (simp add: format_02d_small)
  have d: "nat n < 10" using True n by simp
  have z: "is_digit CHR ''0''" "digit_val CHR ''0'' = 0" by (simp_all add: is_digit_def digit_val_def)
  have a: "2 \<le> length (format_02d n)" unfolding f by simp
  have b: "list_all is_digit (format_02d n)"
    unfolding f using digit_char_props [OF d] z by simp
  have c: "dec_val (format_02d n) = nat n"
    unfolding f using digit_char_props [OF d] z by (simp add: dec_val_def)
  from a b c f True show ?thesis by simp
next
  case False
  then have b: "10 \<le> n" by simp
  have f: "format_02d n = str_nat (nat n)" using b by (rule format_02d_big)
  have p: "0 < nat n" "10 \<le> nat n" using b by simp_all
  show ?thesis unfolding f using str_nat_props [of "nat n"] p False by simp
qed

lemma episode_name_examples:
  "episode_name 1 = ''episode_01.mp3''" "episode_name 9 = ''episode_09.mp3''"
  "episode_name 10 = ''episode_10.mp3''" "episode_name 99 = ''episode_99.mp3''"
  "episode_name 100 = ''episode_100.mp3''"
  by code_simp+

lemma episode_name_general:
  assumes "1 \<le> n"
  shows "\<exists>ds. episode_name n = ''episode_'' @ ds @ ''.mp3'' \<and> 2 \<le> length ds \<and>
            list_all is_digit ds \<and> dec_val ds = nat n \<and>
            (n < 10 \<longrightarrow> ds = [CHR ''0'', digit_char (nat n)]) \<and>
            (10 \<le> n \<longrightarrow> hd ds \<noteq> CHR ''0'')"
proof (rule exI [of _ "format_02d n"], rule conjI)
  show "episode_name n = ''episode_'' @ format_02d n @ ''.mp3''" by (simp only: episode_name_def)
  show "2 \<le> length (format_02d n) \<and> list_all is_digit (format_02d n) \<and>
         dec_val (format_02d n) = nat n \<and>
         (n < 10 \<longrightarrow> format_02d n = [CHR ''0'', digit_char (nat n)]) \<and>
         (10 \<le> n \<longrightarrow> hd (format_02d n) \<noteq> CHR ''0'')"
    using assms by (rule episode_name_digits)
qed

text \<open>
  C9. The file name of episode \<open>n\<close> is \<^verbatim>\<open>episode_\<close>, the index and \<^verbatim>\<open>.mp3\<close>. For the
  indices 1, 9, 10, 99 and 100 the names are \<^verbatim>\<open>episode_01.mp3\<close>, \<^verbatim>\<open>episode_09.mp3\<close>,
  \<^verbatim>\<open>episode_10.mp3\<close>, \<^verbatim>\<open>episode_99.mp3\<close> and \<^verbatim>\<open>episode_100.mp3\<close>. For every index
  \<open>n \<ge> 1\<close> the index part consists of at least two decimal digits that denote \<open>n\<close>: below
  10 it is a zero followed by the digit of \<open>n\<close>, and from 10 on it is the numeral of \<open>n\<close> in
  its natural width, without a leading zero.
\<close>

theorem episode_name_format:
  "episode_name 1 = ''episode_01.mp3'' \<and> episode_name 9 = ''episode_09.mp3'' \<and>
   episode_name 10 = ''episode_10.mp3'' \<and> episode_name 99 = ''episode_99.mp3'' \<and>
   episode_name 100 = ''episode_100.mp3'' \<and>
   (\<forall>n. 1 \<le> n \<longrightarrow>
      (\<exists>ds. episode_name n = ''episode_'' @ ds @ ''.mp3'' \<and> 2 \<le> length ds \<and>
            list_all is_digit ds \<and> dec_val ds = nat n \<and>
            (n < 10 \<longrightarrow> ds = [CHR ''0'', digit_char (nat n)]) \<and>
            (10 \<le> n \<longrightarrow> hd ds \<noteq> CHR ''0'')))"
  by (intro conjI allI impI) (rule episode_name_examples episode_name_general, assumption?)+

theorem episode_name_format_witness:
  "\<exists>ds. episode_name 12 = ''episode_'' @ ds @ ''.mp3'' \<and> 2 \<le> length ds \<and>
        list_all is_digit ds \<and> dec_val ds = 12 \<and> hd ds \<noteq> CHR ''0''"
proof -
  note general = episode_name_format
    [THEN conjunct2, THEN conjunct2, THEN conjunct2, THEN conjunct2, THEN conjunct2, rule_format]
  have "(1::int) \<le> 12" by simp
  then obtain ds where ds: "episode_name 12 = ''episode_'' @ ds @ ''.mp3'' \<and> 2 \<le> length ds \<and>
      list_all is_digit ds \<and> dec_val ds = nat 12 \<and>
      ((12::int) < 10 \<longrightarrow> ds = [CHR ''0'', digit_char (nat 12)]) \<and>
      ((10::int) \<le> 12 \<longrightarrow> hd ds \<noteq> CHR ''0'')"
    using general [of 12] by blast
  have "(10::int) \<le> 12" by simp
  with ds have "hd ds \<noteq> CHR ''0''" by blast
  moreover have "nat 12 = (12::nat)" by simp
  ultimately show ?thesis using ds by (intro exI [of _ ds]) simp
qed

end
